theory Spec2Isabelle
  imports Main
begin

section \<open>The onion middleware stack\<close>

text \<open>
  A shallow embedding of package \<open>onion\<close>: the \<open>Handler\<close> interface, the
  \<open>middleware\<close> chain link, the adapters \<open>Wrap\<close> and \<open>WrapFunc\<close>, the
  \<open>Onion\<close> struct with \<open>New\<close>, \<open>With\<close>, \<open>Use\<close> and friends, and the recursive
  \<open>build\<close>.

  Go values that the embedding makes explicit:
  \<^item> an interface value or a func value may be nil: it is an \<open>option\<close>, \<open>None\<close> being nil;
  \<^item> a call returns or panics: a handler maps the state of the world to \<open>Inr\<close> of the new
    state, or to \<open>Inl\<close> of the panic value and the state reached when it was raised;
  \<^item> a slice is a header (backing array, offset, length, capacity) and the backing arrays
    live in a store, so that two slices may share storage as they do in Go;
  \<^item> an \<open>*Onion\<close> is an address in the store.

  The state that handlers act on and the store of slices and \<open>Onion\<close> structs are
  separate: a handler that is being served does not register handlers.
\<close>

subsection \<open>Panics and results\<close>

datatype panic = Panic_msg string | Nil_dereference | Index_out_of_range

type_synonym 's result = "(panic \<times> 's) + 's"

type_synonym 'a outcome = "panic + 'a"

text \<open>Statement sequencing: the second call runs only if the first one returned.\<close>

definition and_then :: "'s result \<Rightarrow> ('s \<Rightarrow> 's result) \<Rightarrow> 's result" where
  "and_then x f = (case x of Inl e \<Rightarrow> Inl e | Inr s \<Rightarrow> f s)"

subsection \<open>Handlers\<close>

text \<open>
  \<open>'w\<close> is \<open>http.ResponseWriter\<close>, \<open>'r\<close> is \<open>*http.Request\<close>, \<open>'s\<close> is the state
  of everything a handler can read or write through them or through the variables it
  captured.
\<close>

type_synonym ('w, 'r, 's) http_func = "'w \<Rightarrow> 'r \<Rightarrow> 's \<Rightarrow> 's result"

text \<open>\<open>http.Handler\<close>, an interface: nil, or something with a \<open>ServeHTTP(rw, r)\<close>.\<close>

type_synonym ('w, 'r, 's) http_Handler = "('w, 'r, 's) http_func option"

text \<open>\<open>http.HandlerFunc\<close>, a func type: nil, or a function.\<close>

type_synonym ('w, 'r, 's) http_HandlerFunc = "('w, 'r, 's) http_func option"

type_synonym ('w, 'r, 's) onion_func =
  "'w \<Rightarrow> 'r \<Rightarrow> ('w, 'r, 's) http_Handler \<Rightarrow> 's \<Rightarrow> 's result"

text \<open>\<open>onion.Handler\<close>, an interface: nil, or something with a \<open>ServeHTTP(rw, r, next)\<close>.\<close>

type_synonym ('w, 'r, 's) Handler = "('w, 'r, 's) onion_func option"

text \<open>Calling a method on a nil interface, or calling a nil func, panics.\<close>

definition http_ServeHTTP :: "('w, 'r, 's) http_Handler \<Rightarrow> ('w, 'r, 's) http_func" where
  "http_ServeHTTP h rw r s = (case h of None \<Rightarrow> Inl (Nil_dereference, s) | Some f \<Rightarrow> f rw r s)"

definition call_http_func :: "('w, 'r, 's) http_HandlerFunc \<Rightarrow> ('w, 'r, 's) http_func" where
  "call_http_func f rw r s = (case f of None \<Rightarrow> Inl (Nil_dereference, s) | Some g \<Rightarrow> g rw r s)"

definition Handler_ServeHTTP :: "('w, 'r, 's) Handler \<Rightarrow> ('w, 'r, 's) onion_func" where
  "Handler_ServeHTTP h rw r next s =
     (case h of None \<Rightarrow> Inl (Nil_dereference, s) | Some f \<Rightarrow> f rw r next s)"

text \<open>
  \<open>HandlerFunc(f)\<close> is an interface value that is never nil, also when \<open>f\<close> is; its
  \<open>ServeHTTP\<close> calls \<open>f\<close>. \<open>http.HandlerFunc(f)\<close> likewise.
\<close>

definition HandlerFunc :: "('w, 'r, 's) onion_func option \<Rightarrow> ('w, 'r, 's) Handler" where
  "HandlerFunc f =
     Some (\<lambda>rw r next s. case f of None \<Rightarrow> Inl (Nil_dereference, s) | Some g \<Rightarrow> g rw r next s)"

definition http_HandlerFunc :: "('w, 'r, 's) http_HandlerFunc \<Rightarrow> ('w, 'r, 's) http_Handler" where
  "http_HandlerFunc f = Some (call_http_func f)"

definition Wrap :: "('w, 'r, 's) http_Handler \<Rightarrow> ('w, 'r, 's) Handler" where
  "Wrap handler =
     HandlerFunc (Some (\<lambda>rw r next s.
       and_then (http_ServeHTTP handler rw r s) (http_ServeHTTP next rw r)))"

definition WrapFunc :: "('w, 'r, 's) http_HandlerFunc \<Rightarrow> ('w, 'r, 's) Handler" where
  "WrapFunc handlerFunc =
     HandlerFunc (Some (\<lambda>rw r next s.
       and_then (call_http_func handlerFunc rw r s) (http_ServeHTTP next rw r)))"

subsection \<open>Chain links\<close>

text \<open>
  \<open>middleware{handler, next}\<close>. The field \<open>next\<close> is an \<open>http.Handler\<close> that is nil in
  the zero value and otherwise holds the pointer \<open>&next\<close> to another link.
\<close>

datatype ('w, 'r, 's) middleware =
  Middleware (handler: "('w, 'r, 's) Handler") (nxt: "('w, 'r, 's) middleware option")

abbreviation zero_middleware :: "('w, 'r, 's) middleware" where
  "zero_middleware \<equiv> Middleware None None"

primrec middleware_ServeHTTP :: "('w, 'r, 's) middleware \<Rightarrow> ('w, 'r, 's) http_func" where
  "middleware_ServeHTTP (Middleware h n) =
     (\<lambda>rw r s. case h of
        None \<Rightarrow> Inr s
      | Some f \<Rightarrow> f rw r (map_option middleware_ServeHTTP n) s)"

subsection \<open>Slices and the store\<close>

type_synonym addr = nat

record go_slice =
  arr :: addr
  off :: nat
  len :: nat
  cap :: nat

definition nil_slice :: go_slice where
  "nil_slice = \<lparr>arr = 0, off = 0, len = 0, cap = 0\<rparr>"

record ('w, 'r, 's) Onion =
  middleware :: "('w, 'r, 's) middleware"
  handlers :: go_slice

text \<open>
  The store: the backing arrays of all \<open>[]Handler\<close> slices, the \<open>Onion\<close> structs, one
  allocation counter for each, and the capacity the runtime chooses when \<open>append\<close> has to
  grow a slice (a function of the old capacity and the length needed; the runtime is not
  part of this package, so it is a parameter).
\<close>

record ('w, 'r, 's) store =
  arrays :: "addr \<Rightarrow> ('w, 'r, 's) Handler list"
  next_array :: addr
  onions :: "addr \<Rightarrow> ('w, 'r, 's) Onion option"
  next_onion :: addr
  growcap :: "nat \<Rightarrow> nat \<Rightarrow> nat"

definition empty_store :: "(nat \<Rightarrow> nat \<Rightarrow> nat) \<Rightarrow> ('w, 'r, 's) store" where
  "empty_store g =
     \<lparr>arrays = (\<lambda>_. []), next_array = 0, onions = (\<lambda>_. None), next_onion = 0, growcap = g\<rparr>"

text \<open>The elements \<open>s[0], ..., s[len(s)-1]\<close> of a slice.\<close>

definition elems :: "('w, 'r, 's) store \<Rightarrow> go_slice \<Rightarrow> ('w, 'r, 's) Handler list" where
  "elems st s = take (len s) (drop (off s) (arrays st (arr s)))"

text \<open>\<open>s[i]\<close>, read where the source has established \<open>i < len(s)\<close>.\<close>

definition index :: "('w, 'r, 's) store \<Rightarrow> go_slice \<Rightarrow> nat \<Rightarrow> ('w, 'r, 's) Handler" where
  "index st s i = arrays st (arr s) ! (off s + i)"

text \<open>\<open>s[1:]\<close>.\<close>

definition tail_slice :: "go_slice \<Rightarrow> go_slice" where
  "tail_slice s = s\<lparr>off := off s + 1, len := len s - 1, cap := cap s - 1\<rparr>"

text \<open>A new backing array holding \<open>xs\<close>, and the slice over all of it.\<close>

definition alloc_array ::
  "('w, 'r, 's) Handler list \<Rightarrow> ('w, 'r, 's) store \<Rightarrow> go_slice \<times> ('w, 'r, 's) store" where
  "alloc_array xs st =
     (\<lparr>arr = next_array st, off = 0, len = length xs, cap = length xs\<rparr>,
      st\<lparr>arrays := (arrays st)(next_array st := xs), next_array := Suc (next_array st)\<rparr>)"

text \<open>\<open>make([]Handler, n)\<close>: \<open>n\<close> nil handlers.\<close>

definition make :: "nat \<Rightarrow> ('w, 'r, 's) store \<Rightarrow> go_slice \<times> ('w, 'r, 's) store" where
  "make n st = alloc_array (replicate n None) st"

text \<open>Storing \<open>xs\<close> into the backing array of \<open>s\<close>, from \<open>s[i]\<close> on.\<close>

definition write_at ::
  "go_slice \<Rightarrow> nat \<Rightarrow> ('w, 'r, 's) Handler list \<Rightarrow> ('w, 'r, 's) store \<Rightarrow> ('w, 'r, 's) store" where
  "write_at s i xs st =
     st\<lparr>arrays := (arrays st)(arr s :=
        take (off s + i) (arrays st (arr s)) @ xs @
        drop (off s + i + length xs) (arrays st (arr s)))\<rparr>"

text \<open>\<open>copy(dst, src)\<close>: the first \<open>min(len(dst), len(src))\<close> elements; returns that number.\<close>

definition copy_slice ::
  "go_slice \<Rightarrow> go_slice \<Rightarrow> ('w, 'r, 's) store \<Rightarrow> nat \<times> ('w, 'r, 's) store" where
  "copy_slice dst src st =
     (let n = min (len dst) (len src)
      in (n, write_at dst 0 (take n (elems st src)) st))"

text \<open>
  \<open>append(s, x1, ..., xk)\<close>: in place when the capacity of \<open>s\<close> suffices, into a new
  backing array otherwise.
\<close>

definition append_vals ::
  "go_slice \<Rightarrow> ('w, 'r, 's) Handler list \<Rightarrow> ('w, 'r, 's) store \<Rightarrow> go_slice \<times> ('w, 'r, 's) store" where
  "append_vals s xs st =
     (let n = len s + length xs in
      if n \<le> cap s then (s\<lparr>len := n\<rparr>, write_at s (len s) xs st)
      else
        let c = max n (growcap st (cap s) n);
            (t, st') = alloc_array (elems st s @ xs @ replicate (c - n) None) st
        in (t\<lparr>len := n\<rparr>, st'))"

text \<open>\<open>append(s, t...)\<close>.\<close>

definition append_slice ::
  "go_slice \<Rightarrow> go_slice \<Rightarrow> ('w, 'r, 's) store \<Rightarrow> go_slice \<times> ('w, 'r, 's) store" where
  "append_slice s t st = append_vals s (elems st t) st"

text \<open>
  What a caller's \<open>f(x1, ..., xk)\<close> passes for a variadic parameter: nil when there is no
  argument, a new slice over a new array otherwise. (\<open>f(s...)\<close> passes \<open>s\<close> itself.)
\<close>

definition variadic ::
  "('w, 'r, 's) Handler list \<Rightarrow> ('w, 'r, 's) store \<Rightarrow> go_slice \<times> ('w, 'r, 's) store" where
  "variadic xs st = (if xs = [] then (nil_slice, st) else alloc_array xs st)"


subsection \<open>build\<close>

function build :: "('w, 'r, 's) store \<Rightarrow> go_slice \<Rightarrow> ('w, 'r, 's) middleware" where
  "build st hs =
     (if len hs = 0 then zero_middleware
      else
        let next = (if len hs > 1 then build st (tail_slice hs) else zero_middleware)
        in Middleware (index st hs 0) (Some next))"
  by pat_completeness auto
termination
  by (relation "measure (\<lambda>(st, hs). len hs)") (auto simp: tail_slice_def)

declare build.simps [simp del]

subsection \<open>Onion\<close>

definition New :: "go_slice \<Rightarrow> ('w, 'r, 's) store \<Rightarrow> addr \<times> ('w, 'r, 's) store" where
  "New hs st =
     (next_onion st,
      st\<lparr>onions := (onions st)(next_onion st := Some \<lparr>middleware = build st hs, handlers = hs\<rparr>),
         next_onion := Suc (next_onion st)\<rparr>)"

definition With ::
  "addr \<Rightarrow> go_slice \<Rightarrow> ('w, 'r, 's) store \<Rightarrow> addr outcome \<times> ('w, 'r, 's) store" where
  "With n hs st =
     (case onions st n of
        None \<Rightarrow> (Inl Nil_dereference, st)
      | Some on \<Rightarrow>
          let (currentHandlers, st1) = make (len (handlers on)) st;
              (k, st2) = copy_slice currentHandlers (handlers on) st1;
              (all, st3) = append_slice currentHandlers hs st2;
              (c, st4) = New all st3
          in (Inr c, st4))"

definition Onion_ServeHTTP :: "addr \<Rightarrow> ('w, 'r, 's) store \<Rightarrow> ('w, 'r, 's) http_func" where
  "Onion_ServeHTTP n st rw r s =
     (case onions st n of
        None \<Rightarrow> Inl (Nil_dereference, s)
      | Some on \<Rightarrow> middleware_ServeHTTP (middleware on) rw r s)"

definition Use ::
  "addr \<Rightarrow> ('w, 'r, 's) Handler \<Rightarrow> ('w, 'r, 's) store \<Rightarrow> unit outcome \<times> ('w, 'r, 's) store" where
  "Use n h st =
     (case h of
        None \<Rightarrow> (Inl (Panic_msg ''handler cannot be nil''), st)
      | Some _ \<Rightarrow>
          (case onions st n of
             None \<Rightarrow> (Inl Nil_dereference, st)
           | Some on \<Rightarrow>
               let (hs, st1) = append_vals (handlers on) [h] st;
                   on1 = on\<lparr>handlers := hs\<rparr>;
                   on2 = on1\<lparr>middleware := build st1 (handlers on1)\<rparr>
               in (Inr (), st1\<lparr>onions := (onions st1)(n := Some on2)\<rparr>)))"




definition Handlers :: "addr \<Rightarrow> ('w, 'r, 's) store \<Rightarrow> go_slice outcome" where
  "Handlers n st =
     (case onions st n of None \<Rightarrow> Inl Nil_dereference | Some on \<Rightarrow> Inr (handlers on))"

text \<open>The registered sequence, as a caller reads it through \<open>Handlers()\<close>.\<close>

definition registered :: "addr \<Rightarrow> ('w, 'r, 's) store \<Rightarrow> ('w, 'r, 's) Handler list" where
  "registered n st = (case Handlers n st of Inl _ \<Rightarrow> [] | Inr hs \<Rightarrow> elems st hs)"

text \<open>The call \<open>New(x1, ..., xk)\<close> with the handlers written out.\<close>

definition New_of_args ::
  "('w, 'r, 's) Handler list \<Rightarrow> ('w, 'r, 's) store \<Rightarrow> addr \<times> ('w, 'r, 's) store" where
  "New_of_args xs st = (let (hs, st1) = variadic xs st in New hs st1)"

text \<open>
  A caller's series of calls \<open>n.Use(h)\<close>, on any receivers. A call that panics has not
  touched the store, so the series goes on from the same store.
\<close>

fun Use_all ::
  "(addr \<times> ('w, 'r, 's) Handler) list \<Rightarrow> ('w, 'r, 's) store \<Rightarrow> ('w, 'r, 's) store" where
  "Use_all [] st = st"
| "Use_all ((n, h) # ops) st = Use_all ops (snd (Use n h st))"

subsection \<open>Notions used in the statements\<close>

text \<open>
  What Go guarantees of every slice: its length is within its capacity and its capacity
  within its backing array.
\<close>

definition wf_slice :: "('w, 'r, 's) store \<Rightarrow> go_slice \<Rightarrow> bool" where
  "wf_slice st s \<longleftrightarrow> len s \<le> cap s \<and> off s + cap s \<le> length (arrays st (arr s))"

text \<open>
  What holds of every store the program can reach: nothing lives beyond the allocation
  counters, and the slice of every \<open>Onion\<close> is a slice of the store.
\<close>

definition wf_store :: "('w, 'r, 's) store \<Rightarrow> bool" where
  "wf_store st \<longleftrightarrow>
     (\<forall>a. next_array st \<le> a \<longrightarrow> arrays st a = []) \<and>
     (\<forall>n on. onions st n = Some on \<longrightarrow> n < next_onion st \<and> wf_slice st (handlers on))"


text \<open>The chain as a function of the elements of the slice, first handler outermost.\<close>

fun build_list :: "('w, 'r, 's) Handler list \<Rightarrow> ('w, 'r, 's) middleware" where
  "build_list [] = zero_middleware"
| "build_list (h # hs) = Middleware h (Some (build_list hs))"

text \<open>
  The handler of the package's own test of \<open>ServeHTTP\<close>: it appends a marker to the
  state, calls \<open>next.ServeHTTP(rw, r)\<close>, and appends a second marker.
\<close>

definition ring :: "'m \<Rightarrow> 'm \<Rightarrow> ('w, 'r, 'm list) Handler" where
  "ring b a = HandlerFunc (Some (\<lambda>rw r next s.
     and_then (http_ServeHTTP next rw r (s @ [b])) (\<lambda>s'. Inr (s' @ [a]))))"

text \<open>A handler that appends a marker and returns without calling \<open>next\<close>.\<close>

definition stop :: "'m \<Rightarrow> ('w, 'r, 'm list) Handler" where
  "stop b = HandlerFunc (Some (\<lambda>rw r next s. Inr (s @ [b])))"

text \<open>An \<open>http.Handler\<close> that appends a marker, and one that panics.\<close>

definition mark :: "'m \<Rightarrow> ('w, 'r, 'm list) http_Handler" where
  "mark m = http_HandlerFunc (Some (\<lambda>rw r s. Inr (s @ [m])))"

definition boom :: "('w, 'r, 's) http_Handler" where
  "boom = http_HandlerFunc (Some (\<lambda>rw r s. Inl (Panic_msg ''boom'', s)))"

text \<open>A handler whose effect and result do not depend on the continuation it is given.\<close>

definition ignores_next :: "('w, 'r, 's) Handler \<Rightarrow> bool" where
  "ignores_next h \<longleftrightarrow> (\<forall>f. h = Some f \<longrightarrow> (\<forall>rw r n1 n2 s. f rw r n1 s = f rw r n2 s))"

subsection \<open>Example stores\<close>

definition double_cap :: "nat \<Rightarrow> nat \<Rightarrow> nat" where
  "double_cap c n = 2 * c"

definition init_store :: "(unit, unit, string list) store" where
  "init_store = empty_store double_cap"

text \<open>\<open>p := New(ring a A)\<close> at address 0, then a caller's slice \<open>[ring b B]\<close>.\<close>

definition ex_store :: "(unit, unit, string list) store" where
  "ex_store = snd (alloc_array [ring ''b'' ''B''] (snd (New_of_args [ring ''a'' ''A''] init_store)))"

definition ex_slice :: go_slice where
  "ex_slice = \<lparr>arr = 1, off = 0, len = 1, cap = 1\<rparr>"

definition ex_onion :: "(unit, unit, string list) Onion" where
  "ex_onion = \<lparr>middleware = Middleware (ring ''a'' ''A'') (Some zero_middleware),
               handlers = \<lparr>arr = 0, off = 0, len = 1, cap = 1\<rparr>\<rparr>"

text \<open>\<open>c := p.With(s...)\<close> with that slice \<open>s\<close>, then \<open>d := p.With(s...)\<close>.\<close>

definition ex_store1 :: "(unit, unit, string list) store" where
  "ex_store1 = snd (With 0 ex_slice ex_store)"

definition ex_store2 :: "(unit, unit, string list) store" where
  "ex_store2 = snd (With 0 ex_slice ex_store1)"



section \<open>Chain links and build\<close>

lemma ServeHTTP_nil_handler: "middleware_ServeHTTP (Middleware None n) rw r s = Inr s"
  by simp

lemma ServeHTTP_handler:
  "middleware_ServeHTTP (Middleware (Some f) n) rw r s =
     f rw r (map_option middleware_ServeHTTP n) s"
  by simp

lemma ServeHTTP_link:
  "middleware_ServeHTTP (Middleware h (Some m)) =
     (\<lambda>rw r s. case h of None \<Rightarrow> Inr s | Some f \<Rightarrow> f rw r (Some (middleware_ServeHTTP m)) s)"
  by (cases h) simp_all

lemma ServeHTTP_zero: "middleware_ServeHTTP zero_middleware = (\<lambda>rw r s. Inr s)"
  by simp

declare middleware_ServeHTTP.simps [simp del]

lemma elems_nil: "len s = 0 \<Longrightarrow> elems st s = []"
  by (simp add: elems_def)

lemma elems_cong: "arrays st' (arr s) = arrays st (arr s) \<Longrightarrow> elems st' s = elems st s"
  by (simp add: elems_def)

lemma elems_arrays: "arrays st' = arrays st \<Longrightarrow> elems st' q = elems st q"
  by (simp add: elems_def)

lemma elems_tail:
  assumes pos: "0 < len s" and b: "off s + len s \<le> length (arrays st (arr s))"
  shows "elems st s = index st s 0 # elems st (tail_slice s)"
proof -
  let ?A = "arrays st (arr s)"
  from pos b have lt: "off s < length ?A" by simp
  have d: "drop (off s) ?A = ?A ! off s # drop (Suc (off s)) ?A"
    using lt by (simp add: Cons_nth_drop_Suc)
  from pos obtain k where k: "len s = Suc k" by (cases "len s") auto
  show ?thesis
    by (simp add: elems_def index_def tail_slice_def d k)
qed

text \<open>On a slice that lies within its backing array, \<open>build\<close> is \<open>build_list\<close> of the elements.\<close>

lemma build_build_list:
  "off s + len s \<le> length (arrays st (arr s)) \<Longrightarrow> build st s = build_list (elems st s)"
proof (induction st s rule: build.induct)
  case (1 st hs)
  show ?case
  proof (cases "len hs = 0")
    case True
    then show ?thesis by (simp add: build.simps elems_def)
  next
    case False
    then have pos: "0 < len hs" by simp
    have e: "elems st hs = index st hs 0 # elems st (tail_slice hs)"
      using pos "1.prems" by (rule elems_tail)
    show ?thesis
    proof (cases "1 < len hs")
      case True
      have b: "off (tail_slice hs) + len (tail_slice hs)
                 \<le> length (arrays st (arr (tail_slice hs)))"
        using "1.prems" True by (simp add: tail_slice_def)
      have "build st (tail_slice hs) = build_list (elems st (tail_slice hs))"
        using "1.IH" False True b by simp
      then show ?thesis using True e by (subst build.simps) simp
    next
      case one: False
      then have "len (tail_slice hs) = 0" by (simp add: tail_slice_def)
      then have "elems st (tail_slice hs) = []" by (rule elems_nil)
      then show ?thesis using one pos e by (subst build.simps) simp
    qed
  qed
qed


lemma build_nil: "build st nil_slice = zero_middleware"
  by (simp add: build.simps nil_slice_def)

section \<open>The store operations\<close>

lemma alloc_array_simps:
  "fst (alloc_array xs st) = \<lparr>arr = next_array st, off = 0, len = length xs, cap = length xs\<rparr>"
  "arrays (snd (alloc_array xs st)) = (arrays st)(next_array st := xs)"
  "next_array (snd (alloc_array xs st)) = Suc (next_array st)"
  "onions (snd (alloc_array xs st)) = onions st"
  "next_onion (snd (alloc_array xs st)) = next_onion st"
  "growcap (snd (alloc_array xs st)) = growcap st"
  by (simp_all add: alloc_array_def)

lemma write_at_simps:
  "arrays (write_at s i xs st) = (arrays st)(arr s :=
        take (off s + i) (arrays st (arr s)) @ xs @
        drop (off s + i + length xs) (arrays st (arr s)))"
  "next_array (write_at s i xs st) = next_array st"
  "onions (write_at s i xs st) = onions st"
  "next_onion (write_at s i xs st) = next_onion st"
  "growcap (write_at s i xs st) = growcap st"
  by (simp_all add: write_at_def)

lemma write_at_length:
  "off s + i + length xs \<le> length (arrays st (arr s)) \<Longrightarrow>
   length (arrays (write_at s i xs st) a) = length (arrays st a)"
  by (simp add: write_at_simps)

lemma New_simps:
  "fst (New hs st) = next_onion st"
  "arrays (snd (New hs st)) = arrays st"
  "next_array (snd (New hs st)) = next_array st"
  "onions (snd (New hs st)) =
     (onions st)(next_onion st := Some \<lparr>middleware = build st hs, handlers = hs\<rparr>)"
  "next_onion (snd (New hs st)) = Suc (next_onion st)"
  "growcap (snd (New hs st)) = growcap st"
  by (simp_all add: New_def)

lemma append_vals_cases:
  "len s + length xs \<le> cap s \<Longrightarrow>
     append_vals s xs st = (s\<lparr>len := len s + length xs\<rparr>, write_at s (len s) xs st)"
  "\<not> len s + length xs \<le> cap s \<Longrightarrow>
     append_vals s xs st =
       ((fst (alloc_array (elems st s @ xs @
            replicate (max (len s + length xs) (growcap st (cap s) (len s + length xs))
                        - (len s + length xs)) None) st))
          \<lparr>len := len s + length xs\<rparr>,
        snd (alloc_array (elems st s @ xs @
            replicate (max (len s + length xs) (growcap st (cap s) (len s + length xs))
                        - (len s + length xs)) None) st))"
  by (simp_all add: append_vals_def Let_def split_def)

lemma append_vals_onions:
  "onions (snd (append_vals s xs st)) = onions st"
  "next_onion (snd (append_vals s xs st)) = next_onion st"
  "growcap (snd (append_vals s xs st)) = growcap st"
  by (simp_all add: append_vals_def Let_def split_def alloc_array_simps write_at_simps)

lemma append_vals_old_arrays:
  "a < next_array st \<Longrightarrow> a \<noteq> arr s \<Longrightarrow> arrays (snd (append_vals s xs st)) a = arrays st a"
  by (simp add: append_vals_def Let_def split_def alloc_array_simps write_at_simps)

lemma Use_nil: "Use n None st = (Inl (Panic_msg ''handler cannot be nil''), st)"
  by (simp add: Use_def)

lemma Use_Some:
  assumes "onions st n = Some on"
  shows "Use n (Some f) st =
     (Inr (), (snd (append_vals (handlers on) [Some f] st))
        \<lparr>onions := (onions st)(n := Some
           \<lparr>middleware = build (snd (append_vals (handlers on) [Some f] st))
                            (fst (append_vals (handlers on) [Some f] st)),
            handlers = fst (append_vals (handlers on) [Some f] st)\<rparr>)\<rparr>)"
  using assms by (cases on) (simp add: Use_def split_def Let_def append_vals_onions)

lemma registered_eq: "onions st n = Some on \<Longrightarrow> registered n st = elems st (handlers on)"
  by (simp add: registered_def Handlers_def)

lemma ServeHTTP_eq:
  "onions st' n = onions st n \<Longrightarrow> Onion_ServeHTTP n st' = Onion_ServeHTTP n st"
  by (intro ext) (simp add: Onion_ServeHTTP_def)

section \<open>Well-formed stores\<close>

lemma wf_storeI:
  assumes "\<And>a. next_array st \<le> a \<Longrightarrow> arrays st a = []"
    and "\<And>n on. onions st n = Some on \<Longrightarrow> n < next_onion st"
    and "\<And>n on. onions st n = Some on \<Longrightarrow> wf_slice st (handlers on)"
  shows "wf_store st"
  using assms by (simp add: wf_store_def)

lemma wf_store_empty: "wf_store (empty_store g)"
  by (simp add: wf_store_def empty_store_def)

lemma elems_length: "wf_slice st s \<Longrightarrow> length (elems st s) = len s"
  by (auto simp: wf_slice_def elems_def)

text \<open>A slice that has elements lies in an array that was allocated.\<close>

lemma wf_slice_allocated:
  assumes "wf_store st" "wf_slice st s" "0 < len s"
  shows "arr s < next_array st"
proof (rule ccontr)
  assume "\<not> arr s < next_array st"
  with assms(1) have "arrays st (arr s) = []" by (simp add: wf_store_def)
  with assms(2,3) show False by (simp add: wf_slice_def)
qed

lemma wf_slice_mono:
  "wf_slice st q \<Longrightarrow> length (arrays st (arr q)) \<le> length (arrays st' (arr q)) \<Longrightarrow>
   wf_slice st' q"
  by (simp add: wf_slice_def)

lemma wf_slice_arrays: "arrays st' = arrays st \<Longrightarrow> wf_slice st' q = wf_slice st q"
  by (simp add: wf_slice_def)

lemma wf_slice_nil: "wf_slice st nil_slice"
  by (simp add: wf_slice_def nil_slice_def)

lemma wf_store_alloc:
  assumes "wf_store st"
  shows "wf_store (snd (alloc_array xs st))"
proof -
  have e: "arrays st (next_array st) = []" using assms by (simp add: wf_store_def)
  have "wf_slice (snd (alloc_array xs st)) q" if "wf_slice st q" for q
    using that by (rule wf_slice_mono) (simp add: alloc_array_simps e)
  then show ?thesis using assms by (simp add: wf_store_def alloc_array_simps)
qed

lemma wf_slice_alloc: "wf_slice (snd (alloc_array xs st)) (fst (alloc_array xs st))"
  by (simp add: wf_slice_def alloc_array_simps)

lemma elems_alloc: "elems (snd (alloc_array xs st)) (fst (alloc_array xs st)) = xs"
  by (simp add: elems_def alloc_array_simps)

lemma wf_store_write_at:
  assumes "wf_store st" "off s + i + length xs \<le> length (arrays st (arr s))"
  shows "wf_store (write_at s i xs st)"
proof -
  have same: "length (arrays (write_at s i xs st) a) = length (arrays st a)" for a
    using assms(2) by (rule write_at_length)
  have "wf_slice (write_at s i xs st) q" if "wf_slice st q" for q
    using that by (rule wf_slice_mono) (simp add: same)
  moreover have "arrays (write_at s i xs st) a = []" if "next_array st \<le> a" for a
  proof -
    have "arrays st a = []" using assms(1) that by (simp add: wf_store_def)
    then show ?thesis using same [of a] by simp
  qed
  ultimately show ?thesis using assms(1) by (simp add: wf_store_def write_at_simps)
qed

lemma wf_slice_write_at:
  assumes "wf_slice st q" "off s + i + length xs \<le> length (arrays st (arr s))"
  shows "wf_slice (write_at s i xs st) q"
  using assms(1) by (rule wf_slice_mono) (simp add: write_at_length [OF assms(2)])

subsection \<open>append\<close>

lemma take_drop_write:
  assumes "k + length xs \<le> length A" "d \<le> k"
  shows "take (k - d + length xs) (drop d (take k A @ xs @ drop (k + length xs) A))
         = take (k - d) (drop d A) @ xs"
proof -
  from assms have lk: "length (take k A) = k" by simp
  have "drop d (take k A @ xs @ drop (k + length xs) A)
        = drop d (take k A) @ xs @ drop (k + length xs) A"
    using assms lk by simp
  moreover have "length (drop d (take k A)) = k - d" using lk by simp
  ultimately have "take (k - d + length xs) (drop d (take k A @ xs @ drop (k + length xs) A))
        = drop d (take k A) @ xs" by simp
  then show ?thesis by (simp add: drop_take)
qed

text \<open>The slice that \<open>append\<close> returns holds the old elements followed by the new ones.\<close>

lemma append_vals_elems:
  assumes "wf_slice st s"
  shows "elems (snd (append_vals s xs st)) (fst (append_vals s xs st)) = elems st s @ xs"
proof (cases "len s + length xs \<le> cap s")
  case True
  let ?A = "arrays st (arr s)"
  from assms True have b: "off s + len s + length xs \<le> length ?A" by (simp add: wf_slice_def)
  have "take (len s + length xs)
          (drop (off s) (take (off s + len s) ?A @ xs @ drop (off s + len s + length xs) ?A))
        = take (len s) (drop (off s) ?A) @ xs"
    using take_drop_write [of "off s + len s" xs ?A "off s"] b by simp
  then show ?thesis using True
    by (simp add: append_vals_def Let_def elems_def write_at_simps)
next
  case False
  have l: "length (elems st s) = len s" using assms by (rule elems_length)
  show ?thesis using False l
    by (simp add: append_vals_def Let_def split_def alloc_array_simps elems_def)
qed

text \<open>\<open>append\<close> leaves the elements of every slice over another array as they are.\<close>

lemma append_vals_frame:
  assumes "wf_store st" "wf_slice st s" "wf_slice st q" "arr q \<noteq> arr s \<or> len q = 0"
  shows "elems (snd (append_vals s xs st)) q = elems st q"
proof (cases "len q = 0")
  case True
  then show ?thesis by (simp add: elems_nil)
next
  case False
  with assms have ne: "arr q \<noteq> arr s" and lt: "arr q < next_array st"
    using wf_slice_allocated [of st q] by auto
  show ?thesis
    by (rule elems_cong)
      (use ne lt in \<open>simp add: append_vals_def Let_def split_def alloc_array_simps write_at_simps\<close>)
qed

lemma wf_store_append_vals:
  assumes "wf_store st" "wf_slice st s"
  shows "wf_store (snd (append_vals s xs st))"
proof (cases "len s + length xs \<le> cap s")
  case True
  with assms(2) have "off s + len s + length xs \<le> length (arrays st (arr s))"
    by (simp add: wf_slice_def)
  with assms(1) have "wf_store (write_at s (len s) xs st)" by (rule wf_store_write_at)
  then show ?thesis using True by (simp add: append_vals_cases)
next
  case False
  then show ?thesis using assms(1) by (simp add: append_vals_cases wf_store_alloc)
qed

lemma wf_slice_append_vals:
  assumes "wf_slice st s"
  shows "wf_slice (snd (append_vals s xs st)) (fst (append_vals s xs st))"
proof (cases "len s + length xs \<le> cap s")
  case True
  with assms have b: "off s + len s + length xs \<le> length (arrays st (arr s))"
    by (simp add: wf_slice_def)
  have "wf_slice (write_at s (len s) xs st) s" using assms b by (rule wf_slice_write_at)
  then show ?thesis using True by (simp add: append_vals_cases wf_slice_def)
next
  case False
  have l: "length (elems st s) = len s" using assms by (rule elems_length)
  show ?thesis using False l
    by (simp add: append_vals_cases wf_slice_def alloc_array_simps)
qed

lemma wf_slice_append_vals_other:
  assumes "wf_store st" "wf_slice st s" "wf_slice st q"
  shows "wf_slice (snd (append_vals s xs st)) q"
proof (cases "len s + length xs \<le> cap s")
  case True
  with assms(2) have b: "off s + len s + length xs \<le> length (arrays st (arr s))"
    by (simp add: wf_slice_def)
  have "wf_slice (write_at s (len s) xs st) q" using assms(3) b by (rule wf_slice_write_at)
  then show ?thesis using True by (simp add: append_vals_cases)
next
  case False
  have e: "arrays st (next_array st) = []" using assms(1) by (simp add: wf_store_def)
  have "wf_slice (snd (alloc_array ys st)) q" for ys
    using assms(3) by (rule wf_slice_mono) (simp add: alloc_array_simps e)
  then show ?thesis using False by (simp add: append_vals_cases)
qed

subsection \<open>New\<close>

lemma wf_store_New:
  assumes "wf_store st" "wf_slice st hs"
  shows "wf_store (snd (New hs st))"
proof -
  have w: "wf_slice (snd (New hs st)) q = wf_slice st q" for q
    by (rule wf_slice_arrays) (simp add: New_simps)
  show ?thesis using assms
    by (auto simp: wf_store_def New_simps w less_Suc_eq)
qed



lemma variadic_wf:
  assumes "wf_store st"
  shows "wf_store (snd (variadic xs st))" and "wf_slice (snd (variadic xs st)) (fst (variadic xs st))"
  using assms by (simp_all add: variadic_def wf_store_alloc wf_slice_alloc wf_slice_nil)

lemma wf_store_New_of_args: "wf_store st \<Longrightarrow> wf_store (snd (New_of_args xs st))"
  by (simp add: New_of_args_def split_def Let_def wf_store_New variadic_wf)

lemma New_of_args_ServeHTTP:
  "Onion_ServeHTTP (fst (New_of_args xs st)) (snd (New_of_args xs st)) =
     middleware_ServeHTTP (build_list xs)"
proof (cases "xs = []")
  case True
  then show ?thesis
    by (simp add: New_of_args_def variadic_def Onion_ServeHTTP_def New_simps build_nil
        fun_eq_iff ServeHTTP_zero)
next
  case False
  let ?al = "alloc_array xs st"
  have "off (fst ?al) + len (fst ?al) \<le> length (arrays (snd ?al) (arr (fst ?al)))"
    by (simp add: alloc_array_simps)
  then have "build (snd ?al) (fst ?al) = build_list (elems (snd ?al) (fst ?al))"
    by (rule build_build_list)
  then have "build (snd ?al) (fst ?al) = build_list xs" by (simp add: elems_alloc)
  then show ?thesis using False
    by (simp add: New_of_args_def variadic_def split_def Let_def Onion_ServeHTTP_def New_simps
        fun_eq_iff)
qed

lemma New_of_args_registered:
  "registered (fst (New_of_args xs st)) (snd (New_of_args xs st)) = xs"
  by (simp add: New_of_args_def variadic_def split_def registered_def Handlers_def New_simps
      elems_def nil_slice_def alloc_array_simps)

subsection \<open>Use\<close>

lemma Use_Some_fields:
  assumes "onions st n = Some on"
  shows "arrays (snd (Use n (Some f) st)) = arrays (snd (append_vals (handlers on) [Some f] st))"
    and "next_array (snd (Use n (Some f) st))
           = next_array (snd (append_vals (handlers on) [Some f] st))"
    and "onions (snd (Use n (Some f) st)) = (onions st)(n := Some
           \<lparr>middleware = build (snd (append_vals (handlers on) [Some f] st))
                            (fst (append_vals (handlers on) [Some f] st)),
            handlers = fst (append_vals (handlers on) [Some f] st)\<rparr>)"
    and "next_onion (snd (Use n (Some f) st)) = next_onion st"
  by (simp_all add: Use_Some [OF assms] append_vals_onions)

text \<open>\<open>Use\<close> on one \<open>Onion\<close> leaves every \<open>Onion\<close> over another array as it is.\<close>

lemma Use_frame:
  assumes wf: "wf_store st" and on: "onions st n = Some on" and oq: "onions st q = Some oq"
    and ne: "q \<noteq> n" and dis: "arr (handlers oq) \<noteq> arr (handlers on) \<or> len (handlers oq) = 0"
  shows "onions (snd (Use n h st)) q = Some oq"
    and "elems (snd (Use n h st)) (handlers oq) = elems st (handlers oq)"
proof -
  have ws: "wf_slice st (handlers on)" and wq: "wf_slice st (handlers oq)"
    using wf on oq by (simp_all add: wf_store_def)
  show "onions (snd (Use n h st)) q = Some oq"
    using on oq ne by (cases h) (simp_all add: Use_nil Use_Some)
  show "elems (snd (Use n h st)) (handlers oq) = elems st (handlers oq)"
  proof (cases h)
    case None
    then show ?thesis by (simp add: Use_nil)
  next
    case (Some f)
    have "elems (snd (append_vals (handlers on) [Some f] st)) (handlers oq)
            = elems st (handlers oq)"
      using wf ws wq dis by (rule append_vals_frame)
    then show ?thesis using on Some by (simp add: Use_Some elems_def)
  qed
qed

lemma wf_store_Use:
  assumes wf: "wf_store st"
  shows "wf_store (snd (Use n h st))"
proof (cases h)
  case None
  then show ?thesis using wf by (simp add: Use_nil)
next
  case (Some f)
  show ?thesis
  proof (cases "onions st n")
    case None
    then show ?thesis using wf Some by (simp add: Use_def)
  next
    case on: (Some on)
    let ?ap = "append_vals (handlers on) [Some f] st"
    let ?st' = "snd (Use n (Some f) st)"
    note U = Use_Some_fields [OF on, of f]
    have ws: "wf_slice st (handlers on)" using wf on by (simp add: wf_store_def)
    have wf1: "wf_store (snd ?ap)" using wf ws by (rule wf_store_append_vals)
    have w1: "wf_slice (snd ?ap) (fst ?ap)" using ws by (rule wf_slice_append_vals)
    have wo: "wf_slice (snd ?ap) q" if "wf_slice st q" for q
      using wf ws that by (rule wf_slice_append_vals_other)
    have same: "wf_slice ?st' q = wf_slice (snd ?ap) q" for q
      by (rule wf_slice_arrays) (rule U(1))
    have lt: "n < next_onion st" using wf on by (simp add: wf_store_def)
    have "wf_store ?st'"
    proof (rule wf_storeI)
      show "arrays ?st' a = []" if "next_array ?st' \<le> a" for a
        using that wf1 by (simp add: U wf_store_def)
      show "m < next_onion ?st'" if "onions ?st' m = Some om" for m om
        using that wf lt by (cases "m = n") (simp_all add: U wf_store_def)
      show "wf_slice ?st' (handlers om)" if "onions ?st' m = Some om" for m om
      proof (cases "m = n")
        case True
        with that have "handlers om = fst ?ap" by (auto simp: U)
        then show ?thesis using w1 by (simp add: same)
      next
        case False
        with that have "onions st m = Some om" by (simp add: U)
        then have "wf_slice st (handlers om)" using wf by (simp add: wf_store_def)
        then show ?thesis by (simp add: same wo)
      qed
    qed
    then show ?thesis by (simp add: Some)
  qed
qed

lemma Use_registered:
  assumes wf: "wf_store st" and on: "onions st n = Some on"
  shows "registered n (snd (Use n (Some f) st)) = registered n st @ [Some f]"
proof -
  have ws: "wf_slice st (handlers on)" using wf on by (simp add: wf_store_def)
  have "elems (snd (append_vals (handlers on) [Some f] st))
              (fst (append_vals (handlers on) [Some f] st))
          = elems st (handlers on) @ [Some f]"
    using ws by (rule append_vals_elems)
  then show ?thesis using on
    by (simp add: registered_def Handlers_def Use_Some elems_def)
qed


subsection \<open>With\<close>

text \<open>After \<open>make\<close> and \<open>copy\<close> the new array holds the elements of the receiver's slice.\<close>

lemma make_copy:
  assumes "wf_store st" "wf_slice st s"
  shows "arrays (snd (copy_slice (fst (make (len s) st)) s (snd (make (len s) st))))
           = (arrays st)(next_array st := elems st s)"
proof -
  let ?cur = "fst (make (len s) st)" and ?st1 = "snd (make (len s) st)"
  have cur: "?cur = \<lparr>arr = next_array st, off = 0, len = len s, cap = len s\<rparr>"
    by (simp add: make_def alloc_array_simps)
  have a1: "arrays ?st1 = (arrays st)(next_array st := replicate (len s) None)"
    by (simp add: make_def alloc_array_simps)
  have e: "elems ?st1 s = elems st s"
  proof (cases "len s = 0")
    case True
    then show ?thesis by (simp add: elems_nil)
  next
    case False
    with assms have "arr s < next_array st" by (simp add: wf_slice_allocated)
    then show ?thesis by (intro elems_cong) (simp add: a1)
  qed
  have l: "length (elems st s) = len s" using assms(2) by (rule elems_length)
  show ?thesis
    by (simp add: copy_slice_def Let_def write_at_simps cur a1 e l)
qed


lemma With_result:
  assumes wf: "wf_store st" and on: "onions st n = Some on" and hs: "wf_slice st hs"
  obtains ch st' where
    "With n hs st = (Inr (next_onion st), st')"
    "onions st' = (onions st)(next_onion st := Some ch)"
    "next_onion st' = Suc (next_onion st)"
    "elems st' (handlers ch) = elems st (handlers on) @ elems st hs"
    "next_array st \<le> arr (handlers ch)"
    "arr (handlers ch) < next_array st'"
    "next_array st < next_array st'"
    "\<And>a. a < next_array st \<Longrightarrow> arrays st' a = arrays st a"
    "wf_store st'"
proof -
  let ?s = "handlers on"
  define cur where "cur = fst (make (len ?s) st)"
  define st1 where "st1 = snd (make (len ?s) st)"
  define st2 where "st2 = snd (copy_slice cur ?s st1)"
  define all where "all = fst (append_slice cur hs st2)"
  define st3 where "st3 = snd (append_slice cur hs st2)"
  define st4 where "st4 = snd (New all st3)"
  define ch where "ch = \<lparr>middleware = build st3 all, handlers = all\<rparr>"
  have ws: "wf_slice st ?s" using wf on by (simp add: wf_store_def)
  have cur: "cur = \<lparr>arr = next_array st, off = 0, len = len ?s, cap = len ?s\<rparr>"
    by (simp add: cur_def make_def alloc_array_simps)
  have W: "With n hs st = (Inr (next_onion st3), st4)"
    using on
    by (simp add: With_def split_def Let_def cur_def st1_def st2_def all_def st3_def st4_def
        New_simps)
  have a2: "arrays st2 = (arrays st)(next_array st := elems st ?s)"
    unfolding st2_def cur_def st1_def using wf ws by (rule make_copy)
  have n2: "next_array st2 = Suc (next_array st)"
    by (simp add: st2_def copy_slice_def Let_def write_at_simps st1_def make_def
        alloc_array_simps)
  have o2: "onions st2 = onions st" "next_onion st2 = next_onion st"
    by (simp_all add: st2_def copy_slice_def Let_def write_at_simps st1_def make_def
        alloc_array_simps)
  have l: "length (elems st ?s) = len ?s" using ws by (rule elems_length)
  have e0: "arrays st (next_array st) = []" using wf by (simp add: wf_store_def)
  have wf2: "wf_store st2"
  proof (rule wf_storeI)
    show "arrays st2 a = []" if "next_array st2 \<le> a" for a
      using that wf by (simp add: n2 a2 wf_store_def)
    show "m < next_onion st2" if "onions st2 m = Some om" for m om
      using that wf by (simp add: o2 wf_store_def)
    show "wf_slice st2 (handlers om)" if "onions st2 m = Some om" for m om
    proof -
      have "wf_slice st (handlers om)" using that wf by (simp add: o2 wf_store_def)
      then show ?thesis by (rule wf_slice_mono) (simp add: a2 e0)
    qed
  qed
  have wcur: "wf_slice st2 cur" by (simp add: wf_slice_def cur a2 l)
  have ecur: "elems st2 cur = elems st ?s" by (simp add: elems_def cur a2 l)
  have ehs: "elems st2 hs = elems st hs"
  proof (cases "len hs = 0")
    case True
    then show ?thesis by (simp add: elems_nil)
  next
    case False
    with wf hs have "arr hs < next_array st" by (simp add: wf_slice_allocated)
    then show ?thesis by (intro elems_cong) (simp add: a2)
  qed
  have eall: "elems st3 all = elems st ?s @ elems st hs"
    unfolding all_def st3_def append_slice_def
    using append_vals_elems [OF wcur, of "elems st2 hs"] by (simp add: ecur ehs)
  have wf3: "wf_store st3" unfolding st3_def append_slice_def
    using wf2 wcur by (rule wf_store_append_vals)
  have wall: "wf_slice st3 all" unfolding st3_def all_def append_slice_def
    using wcur by (rule wf_slice_append_vals)
  have o3: "onions st3 = onions st" "next_onion st3 = next_onion st"
    by (simp_all add: st3_def append_slice_def append_vals_onions o2)
  have old3: "arrays st3 a = arrays st a" if "a < next_array st" for a
  proof -
    have "arrays st3 a = arrays st2 a" unfolding st3_def append_slice_def
      using that by (intro append_vals_old_arrays) (simp_all add: n2 cur)
    then show ?thesis using that by (simp add: a2)
  qed
  have arr_all: "next_array st \<le> arr all \<and> arr all < next_array st3"
    unfolding all_def st3_def append_slice_def
    by (cases "len cur + length (elems st2 hs) \<le> cap cur")
      (simp_all add: append_vals_cases alloc_array_simps write_at_simps n2 cur)
  have a4: "arrays st4 = arrays st3" "next_array st4 = next_array st3"
    by (simp_all add: st4_def New_simps)
  have e4: "elems st4 q = elems st3 q" for q by (rule elems_arrays) (rule a4)
  show ?thesis
  proof (rule that [of st4 ch])
    show "With n hs st = (Inr (next_onion st), st4)" using W by (simp add: o3)
    show "onions st4 = (onions st)(next_onion st := Some ch)"
      by (simp add: st4_def New_simps o3 ch_def)
    show "next_onion st4 = Suc (next_onion st)" by (simp add: st4_def New_simps o3)
    show "elems st4 (handlers ch) = elems st ?s @ elems st hs" by (simp add: e4 ch_def eall)
    show "next_array st \<le> arr (handlers ch)" using arr_all by (simp add: ch_def)
    show "arr (handlers ch) < next_array st4" using arr_all by (simp add: ch_def a4)
    show "next_array st < next_array st4" using arr_all by (simp add: a4)
    show "arrays st4 a = arrays st a" if "a < next_array st" for a
      using old3 [OF that] by (simp add: a4)
    show "wf_store st4" unfolding st4_def using wf3 wall by (rule wf_store_New)
  qed
qed

subsection \<open>Assignment to an element\<close>


section \<open>Chains of particular handlers\<close>

lemma ring_step:
  "middleware_ServeHTTP (Middleware (ring b a) (Some m)) rw r s =
     and_then (middleware_ServeHTTP m rw r (s @ [b])) (\<lambda>s'. Inr (s' @ [a]))"
  by (simp add: ring_def HandlerFunc_def http_ServeHTTP_def ServeHTTP_handler)

lemma rings_trace:
  "middleware_ServeHTTP (build_list (map (\<lambda>m. ring (fst m) (snd m)) ms)) rw r s
     = Inr (s @ map fst ms @ rev (map snd ms))"
proof (induction ms arbitrary: s)
  case Nil
  show ?case by (simp add: ServeHTTP_zero)
next
  case (Cons m ms)
  show ?case
    by (simp add: ring_step Cons.IH and_then_def)
qed

text \<open>A chain with a nil handler behaves as the chain of the handlers before it.\<close>

lemma nil_truncates:
  "middleware_ServeHTTP (build_list (xs @ None # ys)) = middleware_ServeHTTP (build_list xs)"
  by (induction xs) (simp_all add: ServeHTTP_link ServeHTTP_zero cong: option.case_cong)

section \<open>Sequences of Use\<close>

lemma Use_invalid: "onions st n = None \<Longrightarrow> snd (Use n h st) = st"
  by (cases h) (simp_all add: Use_def)

lemma Use_arr:
  assumes "onions st n = Some on" and "onions (snd (Use n h st)) n = Some on'"
  shows "arr (handlers on') = arr (handlers on) \<or> arr (handlers on') = next_array st"
proof (cases h)
  case None
  with assms show ?thesis by (simp add: Use_nil)
next
  case (Some f)
  let ?ap = "append_vals (handlers on) [Some f] st"
  from assms Some have "handlers on' = fst ?ap" by (auto simp: Use_Some)
  then show ?thesis
    by (cases "len (handlers on) + length [Some f] \<le> cap (handlers on)")
      (simp_all add: append_vals_cases alloc_array_simps)
qed

text \<open>
  A series of \<open>Use\<close> calls leaves an \<open>Onion\<close> as it is when it is the receiver of none
  of them and shares its backing array with none of the receivers.
\<close>

lemma Use_all_frame:
  assumes "wf_store st" and "onions st q = Some oq"
    and "\<forall>n\<in>fst ` set ops. n \<noteq> q \<and>
           (\<forall>on. onions st n = Some on \<longrightarrow>
                 len (handlers oq) = 0 \<or> arr (handlers oq) \<noteq> arr (handlers on))"
  shows "onions (Use_all ops st) q = Some oq \<and>
         elems (Use_all ops st) (handlers oq) = elems st (handlers oq)"
  using assms
proof (induction ops arbitrary: st)
  case Nil
  then show ?case by simp
next
  case (Cons op ops)
  obtain m h where op: "op = (m, h)" by (cases op)
  let ?st' = "snd (Use m h st)"
  have mq: "m \<noteq> q" using Cons.prems(3) by (simp add: op)
  have wq: "wf_slice st (handlers oq)" using Cons.prems(1,2) by (simp add: wf_store_def)
  have wf': "wf_store ?st'" using Cons.prems(1) by (rule wf_store_Use)
  have step: "onions ?st' q = Some oq \<and> elems ?st' (handlers oq) = elems st (handlers oq)"
  proof (cases "onions st m")
    case None
    then show ?thesis using Cons.prems(2) by (simp add: Use_invalid)
  next
    case (Some om)
    then have "len (handlers oq) = 0 \<or> arr (handlers oq) \<noteq> arr (handlers om)"
      using Cons.prems(3) by (simp add: op)
    then have dis: "arr (handlers oq) \<noteq> arr (handlers om) \<or> len (handlers oq) = 0" by auto
    show ?thesis
      using Use_frame [OF Cons.prems(1) Some Cons.prems(2) mq [symmetric] dis, of h] by simp
  qed
  have rest: "n \<noteq> q \<and> (\<forall>on. onions st n = Some on \<longrightarrow>
                 len (handlers oq) = 0 \<or> arr (handlers oq) \<noteq> arr (handlers on))"
    if "n \<in> fst ` set ops" for n
    using Cons.prems(3) that by auto
  have inv: "\<forall>n\<in>fst ` set ops. n \<noteq> q \<and>
           (\<forall>on. onions ?st' n = Some on \<longrightarrow>
                 len (handlers oq) = 0 \<or> arr (handlers oq) \<noteq> arr (handlers on))"
  proof (intro ballI conjI allI impI)
    fix n assume n: "n \<in> fst ` set ops"
    then show "n \<noteq> q" using rest by simp
    fix on' assume on': "onions ?st' n = Some on'"
    show "len (handlers oq) = 0 \<or> arr (handlers oq) \<noteq> arr (handlers on')"
    proof (cases "onions st m")
      case None
      then have "onions st n = Some on'" using on' by (simp add: Use_invalid)
      then show ?thesis using rest [OF n] by simp
    next
      case (Some om)
      show ?thesis
      proof (cases "n = m")
        case True
        have old: "len (handlers oq) = 0 \<or> arr (handlers oq) \<noteq> arr (handlers om)"
          using Cons.prems(3) Some by (simp add: op)
        have "arr (handlers on') = arr (handlers om) \<or> arr (handlers on') = next_array st"
          using Some on' unfolding True by (rule Use_arr)
        moreover have "arr (handlers oq) < next_array st" if "0 < len (handlers oq)"
          using Cons.prems(1) wq that by (rule wf_slice_allocated)
        ultimately show ?thesis using old by auto
      next
        case False
        have "onions ?st' n = onions st n"
          using False Some by (cases h) (simp_all add: Use_nil Use_Some)
        then have "onions st n = Some on'" using on' by simp
        then show ?thesis using rest [OF n] by simp
      qed
    qed
  qed
  from Cons.IH [OF wf' conjunct1 [OF step] inv] step
  show ?case by (simp add: op)
qed

lemma Use_all_leaves:
  assumes "wf_store st" and "onions st q = Some oq"
    and "fst ` set ops \<subseteq> T" and "q \<notin> T"
    and "\<forall>n\<in>T. \<forall>on. onions st n = Some on \<longrightarrow>
                 len (handlers oq) = 0 \<or> arr (handlers oq) \<noteq> arr (handlers on)"
  shows "onions (Use_all ops st) q = Some oq \<and>
         registered q (Use_all ops st) = registered q st \<and>
         Onion_ServeHTTP q (Use_all ops st) = Onion_ServeHTTP q st"
proof -
  have "\<forall>n\<in>fst ` set ops. n \<noteq> q \<and>
           (\<forall>on. onions st n = Some on \<longrightarrow>
                 len (handlers oq) = 0 \<or> arr (handlers oq) \<noteq> arr (handlers on))"
    using assms(3-5) by blast
  with assms(1,2) have "onions (Use_all ops st) q = Some oq \<and>
         elems (Use_all ops st) (handlers oq) = elems st (handlers oq)"
    by (rule Use_all_frame)
  then show ?thesis using assms(2) by (simp add: registered_eq ServeHTTP_eq)
qed




section \<open>The example stores\<close>

lemma build_alloc: "build (snd (alloc_array xs st)) (fst (alloc_array xs st)) = build_list xs"
proof -
  let ?al = "alloc_array xs st"
  have "off (fst ?al) + len (fst ?al) \<le> length (arrays (snd ?al) (arr (fst ?al)))"
    by (simp add: alloc_array_simps)
  then have "build (snd ?al) (fst ?al) = build_list (elems (snd ?al) (fst ?al))"
    by (rule build_build_list)
  then show ?thesis by (simp add: elems_alloc)
qed

lemma ex_store_facts:
  "wf_store ex_store"
  "wf_slice ex_store ex_slice"
  "onions ex_store 0 = Some ex_onion"
  "next_onion ex_store = 1"
  "next_array ex_store = 2"
  "arrays ex_store 0 = [ring ''a'' ''A'']"
  "arrays ex_store 1 = [ring ''b'' ''B'']"
proof -
  show "wf_store ex_store"
    by (simp add: ex_store_def init_store_def wf_store_alloc wf_store_New_of_args wf_store_empty)
  have b: "build (snd (alloc_array [ring ''a'' ''A''] init_store))
             (fst (alloc_array [ring ''a'' ''A''] init_store)) = build_list [ring ''a'' ''A'']"
    by (rule build_alloc)
  show "onions ex_store 0 = Some ex_onion"
    using b
    by (simp add: ex_store_def ex_onion_def New_of_args_def variadic_def split_def Let_def
        New_simps alloc_array_simps init_store_def empty_store_def)
  show "next_onion ex_store = 1" "next_array ex_store = 2"
    "arrays ex_store 0 = [ring ''a'' ''A'']" "arrays ex_store 1 = [ring ''b'' ''B'']"
    by (simp_all add: ex_store_def New_of_args_def variadic_def split_def Let_def
        New_simps alloc_array_simps init_store_def empty_store_def)
  then show "wf_slice ex_store ex_slice"
    by (simp add: wf_slice_def ex_slice_def)
qed



section \<open>Properties of the package\<close>

subsection \<open>Order of execution\<close>

text \<open>
  C1. For handlers \<open>h1, ..., hn\<close> where \<open>hi\<close> records a marker \<open>before-i\<close>, calls its
  continuation and records a marker \<open>after-i\<close>, \<open>ServeHTTP\<close> on the \<open>Onion\<close> built by
  \<open>New(h1, ..., hn)\<close> returns with exactly the markers \<open>before-1, ..., before-n, after-n,
  ..., after-1\<close> added to the state: the first halves in the order of registration, the second
  halves in the reverse order. (It holds for the empty sequence too.)
\<close>

theorem onion_order:
  "Onion_ServeHTTP (fst (New_of_args (map (\<lambda>m. ring (fst m) (snd m)) ms) st))
                   (snd (New_of_args (map (\<lambda>m. ring (fst m) (snd m)) ms) st)) rw r s
     = Inr (s @ map fst ms @ rev (map snd ms))"
  by (simp add: New_of_args_ServeHTTP rings_trace)


subsection \<open>With\<close>

text \<open>
  C2. For every \<open>Onion\<close> \<open>p\<close> of a well-formed store and every slice \<open>hs\<close>,
  \<open>p.With(hs...)\<close> returns a new \<open>Onion\<close> \<open>c\<close> whose sequence is the sequence of
  \<open>p\<close> followed by \<open>hs\<close>, in a backing array allocated by the call; no array that existed
  is written, and the struct of \<open>p\<close> (its composed middleware and its slice), its sequence and
  its \<open>ServeHTTP\<close> are what they were. Whatever series of \<open>Use\<close> calls is then made on
  \<open>c\<close> leaves \<open>p\<close> so. With a sibling \<open>d\<close> made by a second \<open>p.With\<close>: every
  series of \<open>Use\<close> calls on \<open>c\<close> and \<open>d\<close> leaves \<open>p\<close> so, every series on
  \<open>c\<close> leaves the struct, the sequence and the \<open>ServeHTTP\<close> of \<open>d\<close> as they were,
  and every series on \<open>d\<close> those of \<open>c\<close>.
\<close>

theorem With_independent:
  assumes wf: "wf_store st" and on: "onions st p = Some on" and hs: "wf_slice st hs"
  shows "\<exists>c st1. With p hs st = (Inr c, st1) \<and>
           c \<noteq> p \<and> onions st c = None \<and>
           registered c st1 = registered p st @ elems st hs \<and>
           (\<exists>ch. onions st1 c = Some ch \<and> next_array st \<le> arr (handlers ch)) \<and>
           onions st1 p = Some on \<and> registered p st1 = registered p st \<and>
           (\<forall>a<next_array st. arrays st1 a = arrays st a) \<and>
           Onion_ServeHTTP p st1 = Onion_ServeHTTP p st \<and>
           (\<forall>ops. fst ` set ops \<subseteq> {c} \<longrightarrow>
                onions (Use_all ops st1) p = Some on \<and>
                registered p (Use_all ops st1) = registered p st \<and>
                Onion_ServeHTTP p (Use_all ops st1) = Onion_ServeHTTP p st) \<and>
           (\<forall>hs2 d st2 ops. wf_slice st1 hs2 \<and> With p hs2 st1 = (Inr d, st2) \<longrightarrow>
                d \<noteq> c \<and> d \<noteq> p \<and>
                (fst ` set ops \<subseteq> {c, d} \<longrightarrow>
                   onions (Use_all ops st2) p = Some on \<and>
                   registered p (Use_all ops st2) = registered p st \<and>
                   Onion_ServeHTTP p (Use_all ops st2) = Onion_ServeHTTP p st) \<and>
                (fst ` set ops \<subseteq> {c} \<longrightarrow>
                   onions (Use_all ops st2) d = onions st2 d \<and>
                   registered d (Use_all ops st2) = registered d st2 \<and>
                   Onion_ServeHTTP d (Use_all ops st2) = Onion_ServeHTTP d st2) \<and>
                (fst ` set ops \<subseteq> {d} \<longrightarrow>
                   onions (Use_all ops st2) c = onions st2 c \<and>
                   registered c (Use_all ops st2) = registered c st2 \<and>
                   Onion_ServeHTTP c (Use_all ops st2) = Onion_ServeHTTP c st2))"
proof -
  have plt: "p < next_onion st" and wp: "wf_slice st (handlers on)"
    using wf on by (simp_all add: wf_store_def)
  have fresh: "onions st (next_onion st) = None"
  proof (cases "onions st (next_onion st)")
    case (Some x)
    then show ?thesis using wf by (auto simp: wf_store_def)
  qed simp
  have parr: "len (handlers on) = 0 \<or> arr (handlers on) < next_array st"
    using wf wp wf_slice_allocated by blast
  from wf on hs obtain ch st1 where W1:
    "With p hs st = (Inr (next_onion st), st1)"
    "onions st1 = (onions st)(next_onion st := Some ch)"
    "next_onion st1 = Suc (next_onion st)"
    "elems st1 (handlers ch) = elems st (handlers on) @ elems st hs"
    "next_array st \<le> arr (handlers ch)"
    "arr (handlers ch) < next_array st1"
    "next_array st < next_array st1"
    "\<And>a. a < next_array st \<Longrightarrow> arrays st1 a = arrays st a"
    "wf_store st1"
    by (rule With_result) blast
  let ?c = "next_onion st"
  have cp: "?c \<noteq> p" using plt by simp
  have op1: "onions st1 p = Some on" using on cp by (simp add: W1(2))
  have oc1: "onions st1 ?c = Some ch" by (simp add: W1(2))
  have ep1: "elems st1 (handlers on) = elems st (handlers on)"
  proof (cases "len (handlers on) = 0")
    case True
    then show ?thesis by (simp add: elems_nil)
  next
    case False
    with parr have "arr (handlers on) < next_array st" by simp
    then show ?thesis by (intro elems_cong W1(8))
  qed
  have rp1: "registered p st1 = registered p st"
    using op1 on ep1 by (simp add: registered_eq)
  have sp1: "Onion_ServeHTTP p st1 = Onion_ServeHTTP p st"
    by (rule ServeHTTP_eq) (simp add: op1 on)
  have pc: "len (handlers on) = 0 \<or> arr (handlers on) \<noteq> arr (handlers ch)"
    using parr W1(5) by auto
  have useC: "onions (Use_all ops st1) p = Some on \<and>
        registered p (Use_all ops st1) = registered p st \<and>
        Onion_ServeHTTP p (Use_all ops st1) = Onion_ServeHTTP p st"
    if "fst ` set ops \<subseteq> {?c}" for ops
  proof -
    have "onions (Use_all ops st1) p = Some on \<and>
         registered p (Use_all ops st1) = registered p st1 \<and>
         Onion_ServeHTTP p (Use_all ops st1) = Onion_ServeHTTP p st1"
      using W1(9) op1 that
    proof (rule Use_all_leaves)
      show "p \<notin> {?c}" using cp by simp
      show "\<forall>n\<in>{?c}. \<forall>on'. onions st1 n = Some on' \<longrightarrow>
              len (handlers on) = 0 \<or> arr (handlers on) \<noteq> arr (handlers on')"
        using oc1 pc by simp
    qed
    then show ?thesis by (simp add: rp1 sp1)
  qed
  have sib: "d \<noteq> ?c \<and> d \<noteq> p \<and>
                (fst ` set ops \<subseteq> {?c, d} \<longrightarrow>
                   onions (Use_all ops st2) p = Some on \<and>
                   registered p (Use_all ops st2) = registered p st \<and>
                   Onion_ServeHTTP p (Use_all ops st2) = Onion_ServeHTTP p st) \<and>
                (fst ` set ops \<subseteq> {?c} \<longrightarrow>
                   onions (Use_all ops st2) d = onions st2 d \<and>
                   registered d (Use_all ops st2) = registered d st2 \<and>
                   Onion_ServeHTTP d (Use_all ops st2) = Onion_ServeHTTP d st2) \<and>
                (fst ` set ops \<subseteq> {d} \<longrightarrow>
                   onions (Use_all ops st2) ?c = onions st2 ?c \<and>
                   registered ?c (Use_all ops st2) = registered ?c st2 \<and>
                   Onion_ServeHTTP ?c (Use_all ops st2) = Onion_ServeHTTP ?c st2)"
    if w2: "wf_slice st1 hs2" and W: "With p hs2 st1 = (Inr d, st2)" for hs2 d st2 ops
  proof -
    from W1(9) op1 w2 obtain chd st2' where W2:
      "With p hs2 st1 = (Inr (next_onion st1), st2')"
      "onions st2' = (onions st1)(next_onion st1 := Some chd)"
      "next_onion st2' = Suc (next_onion st1)"
      "elems st2' (handlers chd) = elems st1 (handlers on) @ elems st1 hs2"
      "next_array st1 \<le> arr (handlers chd)"
      "arr (handlers chd) < next_array st2'"
      "next_array st1 < next_array st2'"
      "\<And>a. a < next_array st1 \<Longrightarrow> arrays st2' a = arrays st1 a"
      "wf_store st2'"
      by (rule With_result) blast
    from W W2(1) have d: "d = Suc ?c" and st2: "st2' = st2" by (simp_all add: W1(3))
    note W2 = W2 [unfolded st2 W1(3)]
    have dc: "d \<noteq> ?c" and dp: "d \<noteq> p" using d plt by simp_all
    have op2: "onions st2 p = Some on" using op1 dp by (simp add: W2(2) d)
    have oc2: "onions st2 ?c = Some ch" using oc1 by (simp add: W2(2))
    have od2: "onions st2 d = Some chd" by (simp add: W2(2) d)
    have ep2: "elems st2 (handlers on) = elems st (handlers on)"
    proof (cases "len (handlers on) = 0")
      case True
      then show ?thesis by (simp add: elems_nil)
    next
      case False
      with parr have "arr (handlers on) < next_array st" by simp
      then have "arrays st2 (arr (handlers on)) = arrays st (arr (handlers on))"
        using W1(7) W1(8) W2(8) by simp
      then show ?thesis by (rule elems_cong)
    qed
    have rp2: "registered p st2 = registered p st"
      using op2 on ep2 by (simp add: registered_eq)
    have sp2: "Onion_ServeHTTP p st2 = Onion_ServeHTTP p st"
      by (rule ServeHTTP_eq) (simp add: op2 on)
    have cd: "arr (handlers ch) \<noteq> arr (handlers chd)" using W1(6) W2(5) by simp
    have pd: "len (handlers on) = 0 \<or> arr (handlers on) \<noteq> arr (handlers chd)"
      using parr W1(7) W2(5) by auto
    have 1: "onions (Use_all ops st2) p = Some on \<and>
             registered p (Use_all ops st2) = registered p st \<and>
             Onion_ServeHTTP p (Use_all ops st2) = Onion_ServeHTTP p st"
      if t: "fst ` set ops \<subseteq> {?c, d}"
    proof -
      have "onions (Use_all ops st2) p = Some on \<and>
            registered p (Use_all ops st2) = registered p st2 \<and>
            Onion_ServeHTTP p (Use_all ops st2) = Onion_ServeHTTP p st2"
        using W2(9) op2 t
      proof (rule Use_all_leaves)
        show "p \<notin> {?c, d}" using cp dp by auto
        show "\<forall>n\<in>{?c, d}. \<forall>on'. onions st2 n = Some on' \<longrightarrow>
                len (handlers on) = 0 \<or> arr (handlers on) \<noteq> arr (handlers on')"
          using oc2 od2 pc pd by auto
      qed
      then show ?thesis by (simp add: rp2 sp2)
    qed
    have 2: "onions (Use_all ops st2) d = onions st2 d \<and>
             registered d (Use_all ops st2) = registered d st2 \<and>
             Onion_ServeHTTP d (Use_all ops st2) = Onion_ServeHTTP d st2"
      if t: "fst ` set ops \<subseteq> {?c}"
    proof -
      have "onions (Use_all ops st2) d = Some chd \<and>
            registered d (Use_all ops st2) = registered d st2 \<and>
            Onion_ServeHTTP d (Use_all ops st2) = Onion_ServeHTTP d st2"
        using W2(9) od2 t
      proof (rule Use_all_leaves)
        show "d \<notin> {?c}" using dc by simp
        show "\<forall>n\<in>{?c}. \<forall>on'. onions st2 n = Some on' \<longrightarrow>
                len (handlers chd) = 0 \<or> arr (handlers chd) \<noteq> arr (handlers on')"
          using oc2 cd by auto
      qed
      then show ?thesis by (simp add: od2)
    qed
    have 3: "onions (Use_all ops st2) ?c = onions st2 ?c \<and>
             registered ?c (Use_all ops st2) = registered ?c st2 \<and>
             Onion_ServeHTTP ?c (Use_all ops st2) = Onion_ServeHTTP ?c st2"
      if t: "fst ` set ops \<subseteq> {d}"
    proof -
      have "onions (Use_all ops st2) ?c = Some ch \<and>
            registered ?c (Use_all ops st2) = registered ?c st2 \<and>
            Onion_ServeHTTP ?c (Use_all ops st2) = Onion_ServeHTTP ?c st2"
        using W2(9) oc2 t
      proof (rule Use_all_leaves)
        show "?c \<notin> {d}" using dc by simp
        show "\<forall>n\<in>{d}. \<forall>on'. onions st2 n = Some on' \<longrightarrow>
                len (handlers ch) = 0 \<or> arr (handlers ch) \<noteq> arr (handlers on')"
          using od2 cd by auto
      qed
      then show ?thesis by (simp add: oc2)
    qed
    show ?thesis using dc dp 1 2 3 by blast
  qed
  show ?thesis
  proof (intro exI [of _ ?c] exI [of _ st1] conjI allI impI)
    show "With p hs st = (Inr ?c, st1)" by (rule W1(1))
    show "?c \<noteq> p" by (rule cp)
    show "onions st ?c = None" by (rule fresh)
    show "registered ?c st1 = registered p st @ elems st hs"
      using oc1 on W1(4) by (simp add: registered_eq)
    show "\<exists>ch. onions st1 ?c = Some ch \<and> next_array st \<le> arr (handlers ch)"
      using oc1 W1(5) by blast
    show "onions st1 p = Some on" by (rule op1)
    show "registered p st1 = registered p st" by (rule rp1)
    show "arrays st1 a = arrays st a" if "a < next_array st" for a using that by (rule W1(8))
    show "Onion_ServeHTTP p st1 = Onion_ServeHTTP p st" by (rule sp1)
  qed (use useC sib in \<open>blast+\<close>)
qed

theorem With_independent_witness:
  "wf_store ex_store \<and> onions ex_store 0 = Some ex_onion \<and> wf_slice ex_store ex_slice \<and>
   With 0 ex_slice ex_store = (Inr 1, ex_store1) \<and>
   registered 1 ex_store1 = [ring ''a'' ''A'', ring ''b'' ''B''] \<and>
   registered 0 ex_store1 = [ring ''a'' ''A''] \<and>
   registered 0 (Use_all [(1, ring ''c'' ''C'')] ex_store1) = [ring ''a'' ''A''] \<and>
   wf_slice ex_store1 ex_slice \<and>
   With 0 ex_slice ex_store1 = (Inr 2, ex_store2) \<and>
   registered 0 (Use_all [(1, ring ''c'' ''C''), (2, ring ''d'' ''D'')] ex_store2)
     = [ring ''a'' ''A''] \<and>
   registered 2 (Use_all [(1, ring ''c'' ''C'')] ex_store2) = registered 2 ex_store2 \<and>
   registered 1 (Use_all [(2, ring ''d'' ''D'')] ex_store2) = registered 1 ex_store2"
proof -
  note f = ex_store_facts
  have r0: "registered 0 ex_store = [ring ''a'' ''A'']"
    by (simp add: registered_eq [OF f(3)] elems_def ex_onion_def f(6))
  have e1: "elems ex_store ex_slice = [ring ''b'' ''B'']"
    using f(7) by (simp add: elems_def ex_slice_def)
  from f(1) f(3) f(2) obtain ch st' where W1:
    "With 0 ex_slice ex_store = (Inr (next_onion ex_store), st')"
    "onions st' = (onions ex_store)(next_onion ex_store := Some ch)"
    "next_onion st' = Suc (next_onion ex_store)"
    "elems st' (handlers ch) = elems ex_store (handlers ex_onion) @ elems ex_store ex_slice"
    "next_array ex_store \<le> arr (handlers ch)"
    "arr (handlers ch) < next_array st'"
    "next_array ex_store < next_array st'"
    "\<And>a. a < next_array ex_store \<Longrightarrow> arrays st' a = arrays ex_store a"
    "wf_store st'"
    by (rule With_result) blast
  have w1: "With 0 ex_slice ex_store = (Inr 1, ex_store1)"
    using W1(1) by (simp add: ex_store1_def f(4))
  then have st': "st' = ex_store1" using W1(1) by simp
  note W1 = W1 [unfolded st' f(4) f(5)]
  have sl1: "wf_slice ex_store1 ex_slice"
    using f(2) by (rule wf_slice_mono) (simp add: ex_slice_def W1(8))
  have on1: "onions ex_store1 0 = Some ex_onion" using f(3) by (simp add: W1(2))
  from W1(9) on1 sl1 obtain chd st'' where W2:
    "With 0 ex_slice ex_store1 = (Inr (next_onion ex_store1), st'')"
    "onions st'' = (onions ex_store1)(next_onion ex_store1 := Some chd)"
    "next_onion st'' = Suc (next_onion ex_store1)"
    "elems st'' (handlers chd) = elems ex_store1 (handlers ex_onion) @ elems ex_store1 ex_slice"
    "next_array ex_store1 \<le> arr (handlers chd)"
    "arr (handlers chd) < next_array st''"
    "next_array ex_store1 < next_array st''"
    "\<And>a. a < next_array ex_store1 \<Longrightarrow> arrays st'' a = arrays ex_store1 a"
    "wf_store st''"
    by (rule With_result) blast
  have w2: "With 0 ex_slice ex_store1 = (Inr 2, ex_store2)"
    using W2(1) by (simp add: ex_store2_def W1(3))
  note I = With_independent [OF f(1) f(3) f(2)]
  have T1: "registered 1 ex_store1 = [ring ''a'' ''A'', ring ''b'' ''B'']"
    and T2: "registered 0 ex_store1 = [ring ''a'' ''A'']"
    using I w1 r0 e1 by auto
  have T3: "registered 0 (Use_all ops ex_store1) = [ring ''a'' ''A'']"
    if "fst ` set ops \<subseteq> {1}" for ops
    using I w1 r0 that by auto
  have T4: "registered 0 (Use_all ops ex_store2) = [ring ''a'' ''A'']"
    if "fst ` set ops \<subseteq> {1, 2}" for ops
    using I w1 sl1 w2 r0 that by auto
  have T5: "registered 2 (Use_all ops ex_store2) = registered 2 ex_store2"
    if "fst ` set ops \<subseteq> {1}" for ops
    using I w1 sl1 w2 that by auto
  have T6: "registered 1 (Use_all ops ex_store2) = registered 1 ex_store2"
    if "fst ` set ops \<subseteq> {2}" for ops
    using I w1 sl1 w2 that by auto
  have "registered 0 (Use_all [(1, ring ''c'' ''C'')] ex_store1) = [ring ''a'' ''A'']"
    by (rule T3) simp
  moreover have "registered 0 (Use_all [(1, ring ''c'' ''C''), (2, ring ''d'' ''D'')] ex_store2)
     = [ring ''a'' ''A'']"
    by (rule T4) simp
  moreover have "registered 2 (Use_all [(1, ring ''c'' ''C'')] ex_store2) = registered 2 ex_store2"
    by (rule T5) simp
  moreover have "registered 1 (Use_all [(2, ring ''d'' ''D'')] ex_store2) = registered 1 ex_store2"
    by (rule T6) simp
  ultimately show ?thesis using f(1-3) w1 sl1 w2 T1 T2 by simp
qed


subsection \<open>Nil handlers\<close>






subsection \<open>New and the caller's slice\<close>






subsection \<open>Use(nil)\<close>

text \<open>
  C5. For every \<open>p\<close>, \<open>p.Use(nil)\<close> panics with the message \<open>handler cannot be nil\<close>
  and leaves the whole store as it was: the struct of \<open>p\<close>, its sequence and its
  \<open>ServeHTTP\<close> are unchanged.
\<close>

theorem Use_nil_panics:
  "Use p None st = (Inl (Panic_msg ''handler cannot be nil''), st) \<and>
   onions (snd (Use p None st)) p = onions st p \<and>
   registered p (snd (Use p None st)) = registered p st \<and>
   Onion_ServeHTTP p (snd (Use p None st)) = Onion_ServeHTTP p st"
  by (simp add: Use_def)


subsection \<open>The composed middleware is in sync\<close>




subsection \<open>Short circuit\<close>

text \<open>
  C7. For handlers \<open>A\<close>, \<open>B\<close>, \<open>C\<close> where \<open>B\<close> does not use its continuation,
  \<open>ServeHTTP\<close> on the \<open>Onion\<close> of \<open>New(A, B, C)\<close> does what \<open>A\<close> does with a
  continuation that runs \<open>B\<close> alone: \<open>C\<close> is not run, and the result is that of the
  \<open>Onion\<close> of \<open>New(A, B)\<close>.
\<close>

theorem short_circuit:
  assumes "ignores_next B"
  shows "Onion_ServeHTTP (fst (New_of_args [A, B, C] st)) (snd (New_of_args [A, B, C] st)) rw r s
     = (case A of None \<Rightarrow> Inr s
        | Some a \<Rightarrow> a rw r (Some (\<lambda>rw r s. case B of None \<Rightarrow> Inr s | Some b \<Rightarrow> b rw r None s)) s) \<and>
   Onion_ServeHTTP (fst (New_of_args [A, B, C] st)) (snd (New_of_args [A, B, C] st)) rw r s
     = Onion_ServeHTTP (fst (New_of_args [A, B] st)) (snd (New_of_args [A, B] st)) rw r s"
proof -
  have "(\<lambda>rw r s. case B of None \<Rightarrow> Inr s
            | Some b \<Rightarrow> b rw r (Some (middleware_ServeHTTP m)) s)
        = (\<lambda>rw r s. case B of None \<Rightarrow> Inr s | Some b \<Rightarrow> b rw r None s)" for m
    using assms by (auto simp: ignores_next_def fun_eq_iff split: option.splits)
  then show ?thesis
    by (cases A) (simp_all add: New_of_args_ServeHTTP ServeHTTP_link)
qed

theorem short_circuit_witness:
  "ignores_next (stop ''b'' :: (unit, unit, string list) Handler) \<and>
   Onion_ServeHTTP (fst (New_of_args [ring ''a'' ''A'', stop ''b'', ring ''c'' ''C''] init_store))
                   (snd (New_of_args [ring ''a'' ''A'', stop ''b'', ring ''c'' ''C''] init_store))
                   () () []
     = Inr [''a'', ''b'', ''A'']"
proof -
  have i: "ignores_next (stop ''b'' :: (unit, unit, string list) Handler)"
    by (simp add: ignores_next_def stop_def HandlerFunc_def)
  from short_circuit [OF i, of "ring ''a'' ''A''" "ring ''c'' ''C''" init_store "()" "()" "[]"] i
  show ?thesis
    by (simp add: ring_def stop_def HandlerFunc_def http_ServeHTTP_def and_then_def)
qed


subsection \<open>Wrap and WrapFunc\<close>

text \<open>
  C8, as the claim states it, fails: when the wrapped handler panics, or is nil, the panic
  leaves \<open>ServeHTTP\<close> of \<open>Wrap(h)\<close> before \<open>next.ServeHTTP(rw, r)\<close> is reached.
  With a \<open>next\<close> that appends a marker, no marker is in the state the panic leaves;
  with a wrapped handler that returns, it is.
\<close>

theorem Wrap_panic_counterexample:
  "Handler_ServeHTTP (Wrap boom) () () (mark ''next'') [] = Inl (Panic_msg ''boom'', []) \<and>
   Handler_ServeHTTP (Wrap None) () () (mark ''next'') [] = Inl (Nil_dereference, []) \<and>
   Handler_ServeHTTP (WrapFunc None) () () (mark ''next'') [] = Inl (Nil_dereference, []) \<and>
   Handler_ServeHTTP (Wrap (mark ''h'')) () () (mark ''next'') [] = Inr [''h'', ''next'']"
  by (simp add: Wrap_def WrapFunc_def HandlerFunc_def Handler_ServeHTTP_def and_then_def
      http_ServeHTTP_def call_http_func_def http_HandlerFunc_def mark_def boom_def)

text \<open>
  C8, amended. For every \<open>http.Handler\<close> \<open>h\<close>, \<open>ServeHTTP\<close> of \<open>Wrap(h)\<close> runs
  \<open>h.ServeHTTP(rw, r)\<close> and, whenever that call returns, whatever the state it returns
  in, goes on with \<open>next.ServeHTTP(rw, r)\<close> from that state; when the call panics, the
  panic propagates and \<open>next\<close> is not called. \<open>WrapFunc(f)\<close> does the same with the
  call \<open>f(rw, r)\<close>.
\<close>

theorem Wrap_invokes_next:
  "Handler_ServeHTTP (Wrap h) rw r next s =
     (case http_ServeHTTP h rw r s of Inl e \<Rightarrow> Inl e | Inr s' \<Rightarrow> http_ServeHTTP next rw r s') \<and>
   Handler_ServeHTTP (WrapFunc f) rw r next s =
     (case call_http_func f rw r s of Inl e \<Rightarrow> Inl e | Inr s' \<Rightarrow> http_ServeHTTP next rw r s')"
  by (simp add: Wrap_def WrapFunc_def HandlerFunc_def Handler_ServeHTTP_def and_then_def)

subsection \<open>The empty Onion\<close>

text \<open>
  C9. \<open>ServeHTTP\<close> on the \<open>Onion\<close> of \<open>New()\<close> returns, for every \<open>rw\<close> and
  \<open>r\<close>, and leaves the state as it was.
\<close>

theorem empty_onion_noop:
  "Onion_ServeHTTP (fst (New_of_args [] st)) (snd (New_of_args [] st)) rw r s = Inr s \<and>
   Onion_ServeHTTP (fst (New nil_slice st)) (snd (New nil_slice st)) rw r s = Inr s"
  by (simp add: New_of_args_ServeHTTP ServeHTTP_zero Onion_ServeHTTP_def New_simps build_nil)


subsection \<open>A link with a nil handler\<close>

text \<open>
  C10. \<open>ServeHTTP\<close> of a chain link whose handler is nil returns at once, whatever its
  \<open>next\<close> is, and leaves the state as it was. So the \<open>Onion\<close> of
  \<open>New(x1, ..., xk, nil, y1, ..., ym)\<close> behaves as the \<open>Onion\<close> of
  \<open>New(x1, ..., xk)\<close>: the handlers after the nil one are never run and nothing panics.
\<close>

theorem nil_link_skips:
  "middleware_ServeHTTP (Middleware None n) rw r s = Inr s \<and>
   Onion_ServeHTTP (fst (New_of_args (xs @ None # ys) st))
                   (snd (New_of_args (xs @ None # ys) st)) rw r s
     = Onion_ServeHTTP (fst (New_of_args xs st)) (snd (New_of_args xs st)) rw r s \<and>
   Onion_ServeHTTP (fst (New_of_args (None # ys) st))
                   (snd (New_of_args (None # ys) st)) rw r s = Inr s"
  using nil_truncates [of "[]" ys]
  by (simp add: New_of_args_ServeHTTP nil_truncates ServeHTTP_nil_handler ServeHTTP_zero)

end
